theory Spec2Isabelle
  imports Main
begin

section \<open>CrowdX: values, closures and the global state\<close>

text \<open>
  The library (crowdx.mjs) keeps all of its state in one singleton,
  \<^verbatim>\<open>subscriptionsStore\<close>, and in hidden properties of the proxied objects. The model
  makes that state explicit. Every JavaScript object that the code identifies by reference
  gets an identity: objects and arrays live in a heap of \<open>obj\<close> records, each
  \<^verbatim>\<open>Set<() => unknown>\<close> of reactions lives in a heap of reaction-sets, and each
  \<^verbatim>\<open>reactionFn\<close> closure made by \<^verbatim>\<open>reaction()\<close> has a number.
\<close>

type_synonym addr = nat
type_synonym rsid = nat
type_synonym rid = nat

text \<open>
  Property keys. JavaScript turns every key into a string; the canonical numeric strings
  (array indices) are written \<open>Index i\<close>, every other string \<open>Name s\<close>.
\<close>

datatype key = Name string | Index nat

text \<open>
  JSON-like values, as the documentation of \<^verbatim>\<open>observable\<close> asks for, together with
  references to heap objects and the function objects that the proxy's \<^verbatim>\<open>get\<close> trap
  returns for an array mutation method (they close over \<^verbatim>\<open>target\<close> and \<^verbatim>\<open>prop\<close>).
  Numbers are integers, and \<^verbatim>\<open>NaN\<close>, the one primitive that is not identical to
  itself; fractions and infinities play no part in the library.
\<close>

datatype val =
    Undefined
  | Null
  | Boolean bool
  | Number int
  | NaN
  | Str string
  | Ref addr
  | Mutator addr string

text \<open>
  \<^verbatim>\<open>a !== b\<close> is the negation of \<open>strict_eq\<close>. Objects compare by reference. Every
  evaluation of the \<^verbatim>\<open>get\<close> trap makes a new function object, so two mutators are
  never taken to be identical.
\<close>

fun strict_eq :: "val \<Rightarrow> val \<Rightarrow> bool" where
  "strict_eq NaN b = False"
| "strict_eq a NaN = False"
| "strict_eq (Mutator t m) b = False"
| "strict_eq a (Mutator t m) = False"
| "strict_eq a b = (a = b)"

text \<open>\<^verbatim>\<open>typeof val === "object" && val != null\<close>\<close>

fun is_object :: "val \<Rightarrow> bool" where
  "is_object (Ref a) = True"
| "is_object v = False"

text \<open>
  The disposal handle returned by \<^verbatim>\<open>reaction()\<close> (and the accessor returned by
  \<^verbatim>\<open>computed()\<close>) carries the reaction under the private symbol
  \<^verbatim>\<open>REACTION_FOR_DISPOSAL\<close>; any other object passed to \<^verbatim>\<open>dispose\<close> carries nothing.
\<close>

datatype handle = Handle (REACTION_FOR_DISPOSAL: "rid option")

text \<open>
  Code written by the caller of the library (tracked functions, effect functions, the
  bodies of actions, the main program) is a tree of calls into the library and into the
  proxied objects; each continuation receives the value the call returned.
\<close>

datatype prog =
    Return val
  | Throw val
  | NewObject "(key \<times> val) list" "val \<Rightarrow> prog"
  | NewArray "val list" "val \<Rightarrow> prog"
  | Get val key "val \<Rightarrow> prog"
  | Put val key val prog
  | Apply val "val list" "val \<Rightarrow> prog"
  | Call prog "val \<Rightarrow> prog"
  | Observable val "val \<Rightarrow> prog"
  | Reaction prog "val \<Rightarrow> prog" "handle \<Rightarrow> prog"
  | Computed prog "val \<Rightarrow> handle \<Rightarrow> prog"
  | CallAction "val list \<Rightarrow> prog" "val list" prog
  | Dispose handle prog

text \<open>
  A heap object: a plain object or array, or the target of a Proxy made by
  \<^verbatim>\<open>observable\<close> (the target is reachable only through its proxy, so one record
  stands for both). Arrays keep their elements in \<open>elems\<close>, with \<open>None\<close> for a hole.
\<close>

record obj =
  is_array :: bool
  is_proxy :: bool
  props :: "(key \<times> val) list"
  elems :: "val option list"
  PARENT_REACTIONS :: "rsid option"
  PROPERTY_REACTIONS :: "key \<rightharpoonup> rsid"

record frame =
  trackedFunction :: rid
  reactionSets :: "rsid list"

text \<open>
  What an observer of a run can see: each call of a \<^verbatim>\<open>reactionFn\<close> and each call of
  an effect function, with its argument. The log is not part of the source; it records the
  calls the source makes.
\<close>

datatype event = Invoked rid | Effect rid val

record state =
  reactionSubscriptionSets :: "rid \<rightharpoonup> rsid list"
  currentlyTracking :: "frame option"
  currentActionReactionSets :: "rsid option list option"
  rsets :: "rsid \<Rightarrow> rid option list"
  next_rset :: nat
  objects :: "addr \<Rightarrow> obj"
  next_obj :: nat
  closures :: "rid \<Rightarrow> prog \<times> (val \<Rightarrow> prog)"
  next_reaction :: nat
  trace :: "event list"

datatype exn = TypeError | RangeError | Thrown val

datatype 'a result = Returned 'a | Threw exn | Diverged

section \<open>JavaScript Sets\<close>

text \<open>
  A \<^verbatim>\<open>Set\<close> keeps its entries in insertion order. \<^verbatim>\<open>delete\<close> empties the entry
  where it stands (\<open>None\<close>), \<^verbatim>\<open>add\<close> appends unless the value is present, and a
  \<^verbatim>\<open>for...of\<close> over the set walks the entries by position, seeing what is added while
  it runs. Sets from which nothing is ever deleted are plain duplicate-free lists.
\<close>

definition set_add :: "'a option list \<Rightarrow> 'a \<Rightarrow> 'a option list" where
  "set_add xs x = (if Some x \<in> set xs then xs else xs @ [Some x])"

definition set_delete :: "'a option list \<Rightarrow> 'a \<Rightarrow> 'a option list" where
  "set_delete xs x = map (\<lambda>e. if e = Some x then None else e) xs"

definition set_has :: "'a option list \<Rightarrow> 'a \<Rightarrow> bool" where
  "set_has xs x = (Some x \<in> set xs)"

definition ins :: "'a \<Rightarrow> 'a list \<Rightarrow> 'a list" where
  "ins x xs = (if x \<in> set xs then xs else xs @ [x])"

section \<open>CrowdXTrackingStore\<close>

definition add_reaction :: "rid \<Rightarrow> rsid \<Rightarrow> state \<Rightarrow> state" where
  "add_reaction r rs s = s\<lparr>rsets := (rsets s)(rs := set_add (rsets s rs) r)\<rparr>"

definition delete_reaction :: "rid \<Rightarrow> rsid \<Rightarrow> state \<Rightarrow> state" where
  "delete_reaction r rs s = s\<lparr>rsets := (rsets s)(rs := set_delete (rsets s rs) r)\<rparr>"

definition beginTracking :: "rid \<Rightarrow> state \<Rightarrow> state" where
  "beginTracking func s =
     (let s1 = s\<lparr>currentlyTracking := Some \<lparr>trackedFunction = func, reactionSets = []\<rparr>\<rparr>
      in if reactionSubscriptionSets s1 func = None
         then s1\<lparr>reactionSubscriptionSets := (reactionSubscriptionSets s1)(func \<mapsto> [])\<rparr>
         else s1)"

definition completeTracking :: "state \<Rightarrow> state" where
  "completeTracking s =
     (case currentlyTracking s of
        None \<Rightarrow> s
      | Some fr \<Rightarrow>
          (fold (add_reaction (trackedFunction fr)) (reactionSets fr) s)
            \<lparr>currentlyTracking := None\<rparr>)"

definition track :: "rsid \<Rightarrow> state \<Rightarrow> state" where
  "track reactionSet s =
     (case currentlyTracking s of
        None \<Rightarrow> s
      | Some fr \<Rightarrow>
          (let s1 = s\<lparr>currentlyTracking :=
                        Some (fr\<lparr>reactionSets := ins reactionSet (reactionSets fr)\<rparr>)\<rparr>
           in case reactionSubscriptionSets s1 (trackedFunction fr) of
                None \<Rightarrow> s1
              | Some subs \<Rightarrow>
                  s1\<lparr>reactionSubscriptionSets :=
                       (reactionSubscriptionSets s1)(trackedFunction fr \<mapsto> ins reactionSet subs)\<rparr>))"

definition store_dispose :: "rid \<Rightarrow> state \<Rightarrow> state" where
  "store_dispose reaction s =
     (case reactionSubscriptionSets s reaction of
        None \<Rightarrow> s
      | Some subs \<Rightarrow>
          (let s1 = fold (delete_reaction reaction) subs s
           in s1\<lparr>reactionSubscriptionSets := (reactionSubscriptionSets s1)(reaction := None)\<rparr>))"

definition beginAction :: "state \<Rightarrow> state" where
  "beginAction s = s\<lparr>currentActionReactionSets := Some []\<rparr>"


text \<open>
  Running a piece of code gives a result and the state it left behind: also when it
  throws, since nothing of what it did before is undone. \<open>Diverged\<close> stands for a
  run without an outcome in the model: it was cut off before it ended, or it called a
  native method that is not modelled.
\<close>

type_synonym 'a m = "state \<Rightarrow> 'a result \<times> state"

definition ret :: "'a \<Rightarrow> 'a m" where
  "ret x s = (Returned x, s)"

definition bnd :: "'a m \<Rightarrow> ('a \<Rightarrow> 'b m) \<Rightarrow> 'b m" where
  "bnd f g s =
     (case f s of
        (Returned x, s1) \<Rightarrow> g x s1
      | (Threw e, s1) \<Rightarrow> (Threw e, s1)
      | (Diverged, s1) \<Rightarrow> (Diverged, s1))"

text \<open>
  \<^verbatim>\<open>for (const reaction of reactionSet) { reaction(); }\<close> over a live set: the loop
  reads the set again at every step, skips emptied entries and stops at the first throw.
\<close>

primrec for_of_set :: "nat \<Rightarrow> (rid \<Rightarrow> unit m) \<Rightarrow> rsid \<Rightarrow> nat \<Rightarrow> unit m" where
  "for_of_set 0 body rs i s = (Diverged, s)"
| "for_of_set (Suc n) body rs i s =
     (if i < length (rsets s rs) then
        (case rsets s rs ! i of
           None \<Rightarrow> for_of_set n body rs (Suc i) s
         | Some reaction \<Rightarrow> bnd (body reaction) (\<lambda>_. for_of_set n body rs (Suc i)) s)
      else (Returned (), s))"

text \<open>The same loop over a set that nothing else can reach while it runs.\<close>

primrec for_each :: "('a \<Rightarrow> unit m) \<Rightarrow> 'a list \<Rightarrow> unit m" where
  "for_each body [] s = (Returned (), s)"
| "for_each body (x # xs) s = bnd (body x) (\<lambda>_. for_each body xs) s"

text \<open>
  \<^verbatim>\<open>publish(reactionSet)\<close>. The argument is \<open>None\<close> when the caller passes
  \<^verbatim>\<open>undefined\<close>, as the array mutators do for an array without a parent: a Set accepts
  \<^verbatim>\<open>undefined\<close> as an element, and \<^verbatim>\<open>for...of\<close> over \<^verbatim>\<open>undefined\<close> throws a
  TypeError.
\<close>

definition publish :: "nat \<Rightarrow> (rid \<Rightarrow> unit m) \<Rightarrow> rsid option \<Rightarrow> unit m" where
  "publish n call reactionSet s =
     (case currentActionReactionSets s of
        Some batch \<Rightarrow>
          (Returned (), s\<lparr>currentActionReactionSets := Some (ins reactionSet batch)\<rparr>)
      | None \<Rightarrow>
          (case reactionSet of
             None \<Rightarrow> (Threw TypeError, s)
           | Some rs \<Rightarrow> for_of_set n call rs 0 s))"

text \<open>
  The first loop of \<^verbatim>\<open>publishAll\<close>: the reactions of all the sets, combined into one
  Set. It fails (TypeError) at an \<^verbatim>\<open>undefined\<close> member of \<^verbatim>\<open>reactionSets\<close>.
\<close>

fun all_reactions :: "(rsid \<Rightarrow> rid option list) \<Rightarrow> rsid option list \<Rightarrow> rid list \<Rightarrow> rid list option" where
  "all_reactions sets [] allReactions = Some allReactions"
| "all_reactions sets (None # rest) allReactions = None"
| "all_reactions sets (Some rs # rest) allReactions =
     all_reactions sets rest (fold ins (List.map_filter id (sets rs)) allReactions)"

definition publishAll :: "(rid \<Rightarrow> unit m) \<Rightarrow> rsid option list \<Rightarrow> unit m" where
  "publishAll call reactionSets' s =
     (case currentActionReactionSets s of
        Some batch \<Rightarrow>
          (Returned (), s\<lparr>currentActionReactionSets := Some (fold ins reactionSets' batch)\<rparr>)
      | None \<Rightarrow>
          (case all_reactions (rsets s) reactionSets' [] of
             None \<Rightarrow> (Threw TypeError, s)
           | Some allReactions \<Rightarrow> for_each call allReactions s))"

definition completeAction :: "(rid \<Rightarrow> unit m) \<Rightarrow> unit m" where
  "completeAction call s =
     (let observables = currentActionReactionSets s;
          s1 = s\<lparr>currentActionReactionSets := None\<rparr>
      in case observables of
           None \<Rightarrow> (Returned (), s1)
         | Some reactionSets' \<Rightarrow> publishAll call reactionSets' s1)"

section \<open>Ordinary objects and arrays\<close>

text \<open>
  What the JavaScript runtime does on the target of a proxy (and on any plain object):
  \<^verbatim>\<open>target[prop]\<close>, \<^verbatim>\<open>target.hasOwnProperty(prop)\<close>, \<^verbatim>\<open>target[prop] = v\<close> and
  \<^verbatim>\<open>Object.keys(target)\<close>. Properties inherited from a prototype are not modelled:
  a key that is not an own property reads as \<^verbatim>\<open>undefined\<close>.
\<close>

fun is_index :: "key \<Rightarrow> bool" where
  "is_index (Index i) = True"
| "is_index (Name n) = False"

fun index_of :: "key \<Rightarrow> nat" where
  "index_of (Index i) = i"
| "index_of (Name n) = 0"

definition own_get :: "obj \<Rightarrow> key \<Rightarrow> val" where
  "own_get t prop =
     (if is_array t \<and> is_index prop then
        (if index_of prop < length (elems t)
         then (case elems t ! index_of prop of Some v \<Rightarrow> v | None \<Rightarrow> Undefined)
         else Undefined)
      else if is_array t \<and> prop = Name ''length'' then
        Number (int (length (elems t)))
      else (case map_of (props t) prop of Some v \<Rightarrow> v | None \<Rightarrow> Undefined))"

definition has_own :: "obj \<Rightarrow> key \<Rightarrow> bool" where
  "has_own t prop =
     (if is_array t \<and> is_index prop then
        index_of prop < length (elems t) \<and> elems t ! index_of prop \<noteq> None
      else if is_array t \<and> prop = Name ''length'' then True
      else map_of (props t) prop \<noteq> None)"

fun put_prop :: "key \<Rightarrow> val \<Rightarrow> (key \<times> val) list \<Rightarrow> (key \<times> val) list" where
  "put_prop k v [] = [(k, v)]"
| "put_prop k v (p # ps) = (if fst p = k then (k, v) # ps else p # put_prop k v ps)"

text \<open>
  An assignment to \<^verbatim>\<open>length\<close> of an array cuts the array or pads it with holes; a
  value that is not a non-negative number makes it fail (\<open>None\<close>, a RangeError).
\<close>

definition set_length :: "val \<Rightarrow> val option list \<Rightarrow> val option list option" where
  "set_length v es =
     (case v of
        Number l \<Rightarrow>
          (if 0 \<le> l
           then Some (take (nat l) es @ replicate (nat l - length es) None)
           else None)
      | _ \<Rightarrow> None)"

definition own_put :: "obj \<Rightarrow> key \<Rightarrow> val \<Rightarrow> obj option" where
  "own_put t prop v =
     (if is_array t \<and> is_index prop then
        Some (t\<lparr>elems :=
                 (if index_of prop < length (elems t)
                  then (elems t)[index_of prop := Some v]
                  else elems t @ replicate (index_of prop - length (elems t)) None
                       @ [Some v])\<rparr>)
      else if is_array t \<and> prop = Name ''length'' then
        (case set_length v (elems t) of
           Some es \<Rightarrow> Some (t\<lparr>elems := es\<rparr>)
         | None \<Rightarrow> None)
      else Some (t\<lparr>props := put_prop prop v (props t)\<rparr>))"

text \<open>\<^verbatim>\<open>Object.keys\<close>: the indices in ascending order, then the names as inserted.\<close>

definition own_keys :: "obj \<Rightarrow> key list" where
  "own_keys t =
     (if is_array t
      then map Index (filter (\<lambda>i. elems t ! i \<noteq> None) [0..<length (elems t)])
      else map Index (sort (map index_of (filter is_index (map fst (props t))))))
     @ filter (\<lambda>k. \<not> is_index k) (map fst (props t))"

text \<open>
  The native array methods that the proxy wraps, on the elements of the target: the
  value returned and the new elements. \<^verbatim>\<open>fill\<close>, \<^verbatim>\<open>splice\<close>, \<^verbatim>\<open>sort\<close> and
  \<^verbatim>\<open>reverse\<close> are not modelled (\<open>None\<close>).
\<close>

definition hole_val :: "val option \<Rightarrow> val" where
  "hole_val e = (case e of Some v \<Rightarrow> v | None \<Rightarrow> Undefined)"

definition array_builtin :: "string \<Rightarrow> val list \<Rightarrow> val option list \<Rightarrow> (val \<times> val option list) option" where
  "array_builtin m args es =
     (if m = ''push'' then
        Some (Number (int (length es + length args)), es @ map Some args)
      else if m = ''unshift'' then
        Some (Number (int (length es + length args)), map Some args @ es)
      else if m = ''pop'' then
        Some (if es = [] then (Undefined, []) else (hole_val (last es), butlast es))
      else if m = ''shift'' then
        Some (if es = [] then (Undefined, []) else (hole_val (hd es), tl es))
      else None)"

section \<open>The proxy handler\<close>

definition ARRAY_MUTATION_METHODS :: "string list" where
  "ARRAY_MUTATION_METHODS =
     [''push'', ''pop'', ''fill'', ''splice'', ''sort'', ''reverse'', ''shift'', ''unshift'']"

fun is_mutation_method :: "key \<Rightarrow> bool" where
  "is_mutation_method (Name m) = (m \<in> set ARRAY_MUTATION_METHODS)"
| "is_mutation_method (Index i) = False"

fun method_name :: "key \<Rightarrow> string" where
  "method_name (Name m) = m"
| "method_name (Index i) = []"

definition set_object :: "addr \<Rightarrow> obj \<Rightarrow> state \<Rightarrow> state" where
  "set_object a t s = s\<lparr>objects := (objects s)(a := t)\<rparr>"

text \<open>The \<^verbatim>\<open>get\<close> trap.\<close>

definition proxyHandler_get :: "addr \<Rightarrow> key \<Rightarrow> state \<Rightarrow> val \<times> state" where
  "proxyHandler_get target prop s =
     (let t = objects s target
      in if is_array t \<and> is_mutation_method prop then
           (Mutator target (method_name prop), s)
         else
           (own_get t prop,
            (case PROPERTY_REACTIONS t prop of
               Some reactionSet \<Rightarrow> track reactionSet s
             | None \<Rightarrow> s)))"

text \<open>
  The function that the \<^verbatim>\<open>get\<close> trap returns for a mutation method, when it is
  called: the native method on the target, then
  \<^verbatim>\<open>publish(target[PARENT_REACTIONS])\<close>, whether or not the target has a parent.
\<close>

definition mutator_call :: "(rsid option \<Rightarrow> unit m) \<Rightarrow> addr \<Rightarrow> string \<Rightarrow> val list \<Rightarrow> val m" where
  "mutator_call pub target m args s =
     (let t = objects s target
      in case array_builtin m args (elems t) of
           None \<Rightarrow> (Diverged, s)
         | Some (res, es) \<Rightarrow>
             bnd (pub (PARENT_REACTIONS t)) (\<lambda>_. ret res)
                 (set_object target (t\<lparr>elems := es\<rparr>) s))"

text \<open>Calling a value: only the mutators are functions here.\<close>

definition apply_fn :: "(rsid option \<Rightarrow> unit m) \<Rightarrow> val \<Rightarrow> val list \<Rightarrow> val m" where
  "apply_fn pub f args s =
     (case f of
        Mutator target m \<Rightarrow> mutator_call pub target m args s
      | _ \<Rightarrow> (Threw TypeError, s))"

text \<open>
  The \<^verbatim>\<open>set\<close> trap. \<open>wrap\<close> stands for the recursive call of \<^verbatim>\<open>observable\<close> and
  \<open>pub\<close> for \<^verbatim>\<open>subscriptionsStore.publish\<close>.
\<close>

definition new_reaction_set :: "addr \<Rightarrow> key \<Rightarrow> state \<Rightarrow> state" where
  "new_reaction_set target prop s =
     (let rs = next_rset s; t = objects s target
      in s\<lparr>rsets := (rsets s)(rs := []),
           next_rset := Suc rs,
           objects := (objects s)
             (target := t\<lparr>PROPERTY_REACTIONS := (PROPERTY_REACTIONS t)(prop \<mapsto> rs)\<rparr>)\<rparr>)"

definition ensure_reaction_set :: "addr \<Rightarrow> key \<Rightarrow> state \<Rightarrow> state" where
  "ensure_reaction_set target prop s =
     (if PROPERTY_REACTIONS (objects s target) prop = None
      then new_reaction_set target prop s else s)"

definition proxyHandler_set ::
  "(val \<Rightarrow> rsid option \<Rightarrow> val m) \<Rightarrow> (rsid option \<Rightarrow> unit m) \<Rightarrow> addr \<Rightarrow> key \<Rightarrow> val \<Rightarrow> bool m" where
  "proxyHandler_set wrap pub target prop v s =
     (if \<not> strict_eq (own_get (objects s target) prop) v then
        (let newProperty = \<not> has_own (objects s target) prop;
             s1 = ensure_reaction_set target prop s
         in bnd (wrap v (PROPERTY_REACTIONS (objects s1 target) prop))
              (\<lambda>w s2.
                 case own_put (objects s2 target) prop w of
                   None \<Rightarrow> (Threw RangeError, s2)
                 | Some t' \<Rightarrow>
                     (let s3 = set_object target t' s2
                      in bnd (if newProperty then
                                (case PARENT_REACTIONS (objects s3 target) of
                                   Some parent \<Rightarrow> pub (Some parent)
                                 | None \<Rightarrow> ret ())
                              else pub (PROPERTY_REACTIONS (objects s3 target) prop))
                             (\<lambda>_. ret True) s3))
              s1)
      else (Returned True, s))"

text \<open>Reads and writes as the code performs them: through the traps on a proxy.\<close>

definition js_get :: "addr \<Rightarrow> key \<Rightarrow> state \<Rightarrow> val \<times> state" where
  "js_get a prop s =
     (if is_proxy (objects s a) then proxyHandler_get a prop s
      else (own_get (objects s a) prop, s))"

definition js_put ::
  "(val \<Rightarrow> rsid option \<Rightarrow> val m) \<Rightarrow> (rsid option \<Rightarrow> unit m) \<Rightarrow> addr \<Rightarrow> key \<Rightarrow> val \<Rightarrow> bool m" where
  "js_put wrap pub a prop v s =
     (if is_proxy (objects s a) then proxyHandler_set wrap pub a prop v s
      else (case own_put (objects s a) prop v of
              None \<Rightarrow> (Threw RangeError, s)
            | Some t' \<Rightarrow> (Returned True, set_object a t' s)))"

section \<open>The external API\<close>

text \<open>
  The two tests that \<^verbatim>\<open>observable\<close> makes for an already wrapped value,
  \<^verbatim>\<open>Object.hasOwnProperty(PROPERTY_REACTIONS)\<close> and
  \<^verbatim>\<open>Object.hasOwnProperty(PARENT_REACTIONS)\<close>, ask the global constructor
  \<^verbatim>\<open>Object\<close>, not \<^verbatim>\<open>val\<close>, whether it has the symbol as an own property. It never
  has.
\<close>

datatype symbol = PARENT_REACTIONS_symbol | PROPERTY_REACTIONS_symbol

definition Object_hasOwnProperty :: "symbol \<Rightarrow> bool" where
  "Object_hasOwnProperty symb = False"

fun ref_of :: "val \<Rightarrow> addr" where
  "ref_of (Ref a) = a"
| "ref_of v = 0"

fun less_than_length :: "nat \<Rightarrow> val \<Rightarrow> bool" where
  "less_than_length i (Number l) = (int i < l)"
| "less_than_length i v = False"

text \<open>
  \<^verbatim>\<open>for (let i = 0; i < val.length; i++) { proxy.push(val[i]); }\<close>: the length is
  read again at every step, \<^verbatim>\<open>proxy.push\<close> goes through the \<^verbatim>\<open>get\<close> trap of the
  new proxy, and the source is read through its own traps when it is a proxy.
\<close>

primrec copy_elements :: "nat \<Rightarrow> (rsid option \<Rightarrow> unit m) \<Rightarrow> addr \<Rightarrow> addr \<Rightarrow> nat \<Rightarrow> unit m" where
  "copy_elements 0 pub source proxy i s = (Diverged, s)"
| "copy_elements (Suc n) pub source proxy i s =
     (case js_get source (Name ''length'') s of
        (len, s1) \<Rightarrow>
          if less_than_length i len then
            (case proxyHandler_get proxy (Name ''push'') s1 of
               (push, s2) \<Rightarrow>
                 (case js_get source (Index i) s2 of
                    (x, s3) \<Rightarrow>
                      bnd (apply_fn pub push [x])
                          (\<lambda>_. copy_elements n pub source proxy (Suc i)) s3))
          else (Returned (), s1))"

text \<open>\<^verbatim>\<open>for (const key of Object.keys(val)) { proxy[key] = val[key]; }\<close>\<close>

primrec copy_properties :: "(addr \<Rightarrow> key \<Rightarrow> val \<Rightarrow> bool m) \<Rightarrow> addr \<Rightarrow> addr \<Rightarrow> key list \<Rightarrow> unit m" where
  "copy_properties setter source proxy [] s = (Returned (), s)"
| "copy_properties setter source proxy (k # keys) s =
     (case js_get source k s of
        (x, s1) \<Rightarrow>
          bnd (setter proxy k x) (\<lambda>_. copy_properties setter source proxy keys) s1)"

definition new_proxy :: "bool \<Rightarrow> rsid option \<Rightarrow> state \<Rightarrow> state" where
  "new_proxy arr parentReactionSet s =
     s\<lparr>objects := (objects s)
          (next_obj s := \<lparr>is_array = arr, is_proxy = True, props = [], elems = [],
                          PARENT_REACTIONS = parentReactionSet,
                          PROPERTY_REACTIONS = Map.empty\<rparr>),
        next_obj := Suc (next_obj s)\<rparr>"

text \<open>
  \<^verbatim>\<open>observable(val, parentReactionSet)\<close>. \<open>call\<close> runs a \<^verbatim>\<open>reactionFn\<close>; the first
  argument bounds the nesting of the value and the length of the loops.
\<close>

primrec observable :: "nat \<Rightarrow> (rid \<Rightarrow> unit m) \<Rightarrow> val \<Rightarrow> rsid option \<Rightarrow> val m" where
  "observable 0 call v parentReactionSet s = (Diverged, s)"
| "observable (Suc n) call v parentReactionSet s =
     (if is_object v \<and> \<not> Object_hasOwnProperty PROPERTY_REACTIONS_symbol then
        (let source = ref_of v;
             proxy = next_obj s;
             s1 = new_proxy (is_array (objects s source)) parentReactionSet s
         in bnd (if is_array (objects s source)
                 then copy_elements n (publish n call) source proxy 0
                 else copy_properties
                        (proxyHandler_set (observable n call) (publish n call))
                        source proxy (own_keys (objects s source)))
                (\<lambda>_. ret (Ref proxy)) s1)
      else if is_object v \<and> \<not> Object_hasOwnProperty PARENT_REACTIONS_symbol then
        (case parentReactionSet of
           None \<Rightarrow> (Returned v, s)
         | Some parent \<Rightarrow>
             (if PARENT_REACTIONS (objects s (ref_of v)) = None
              then (Returned v,
                    set_object (ref_of v)
                      ((objects s (ref_of v))\<lparr>PARENT_REACTIONS := Some parent\<rparr>) s)
              else (Threw TypeError, s)))
      else (Returned v, s))"

definition log :: "event \<Rightarrow> state \<Rightarrow> state" where
  "log e s = s\<lparr>trace := trace s @ [e]\<rparr>"

text \<open>
  The closure \<^verbatim>\<open>reactionFn\<close> of \<^verbatim>\<open>reaction(trackedFn, effectFn)\<close>. \<open>rec\<close> runs the
  code of the caller.
\<close>

definition reactionFn :: "(prog \<Rightarrow> val m) \<Rightarrow> rid \<Rightarrow> unit m" where
  "reactionFn rec r s =
     (case closures s r of
        (trackedFn, effectFn) \<Rightarrow>
          bnd (rec trackedFn)
              (\<lambda>result s2.
                 bnd (rec (effectFn result)) (\<lambda>_. ret ())
                     (log (Effect r result) (completeTracking s2)))
              (beginTracking r (log (Invoked r) s)))"

definition reaction :: "(prog \<Rightarrow> val m) \<Rightarrow> prog \<Rightarrow> (val \<Rightarrow> prog) \<Rightarrow> handle m" where
  "reaction rec trackedFn effectFn s =
     (let r = next_reaction s;
          s1 = s\<lparr>closures := (closures s)(r := (trackedFn, effectFn)),
                 next_reaction := Suc r\<rparr>
      in bnd (reactionFn rec r) (\<lambda>_. ret (Handle (Some r))) s1)"

text \<open>The function returned by \<^verbatim>\<open>action(fn)\<close>, called with \<open>args\<close>.\<close>

definition action :: "(prog \<Rightarrow> val m) \<Rightarrow> (val list \<Rightarrow> prog) \<Rightarrow> val list \<Rightarrow> unit m" where
  "action rec fn args s =
     bnd (rec (fn args)) (\<lambda>_. completeAction (reactionFn rec)) (beginAction s)"

text \<open>
  \<^verbatim>\<open>computed(fn)\<close> returns \<^verbatim>\<open>computedFn\<close>, a closure over \<^verbatim>\<open>cache\<close> that carries
  the reaction for disposal: here the cache and the handle.
\<close>

definition computedFn :: "val \<Rightarrow> prog" where
  "computedFn cache = Get cache (Name ''value'') Return"

definition new_plain :: "bool \<Rightarrow> (key \<times> val) list \<Rightarrow> val list \<Rightarrow> state \<Rightarrow> state" where
  "new_plain arr kvs vs s =
     s\<lparr>objects := (objects s)
          (next_obj s := \<lparr>is_array = arr, is_proxy = False,
                          props = fold (\<lambda>(k, v). put_prop k v) kvs [],
                          elems = map Some vs,
                          PARENT_REACTIONS = None,
                          PROPERTY_REACTIONS = Map.empty\<rparr>),
        next_obj := Suc (next_obj s)\<rparr>"

definition computed :: "nat \<Rightarrow> (prog \<Rightarrow> val m) \<Rightarrow> prog \<Rightarrow> (val \<times> handle) m" where
  "computed n rec fn s =
     bnd (observable n (reactionFn rec) (Ref (next_obj s)) None)
         (\<lambda>cache.
            bnd (reaction rec fn (\<lambda>v. Put cache (Name ''value'') v (Return v)))
                (\<lambda>reactionHandle. ret (cache, reactionHandle)))
         (new_plain False [(Name ''value'', Undefined)] [] s)"

definition dispose :: "handle \<Rightarrow> state \<Rightarrow> state" where
  "dispose disposalHandle s =
     (case REACTION_FOR_DISPOSAL disposalHandle of
        Some r \<Rightarrow> store_dispose r s
      | None \<Rightarrow> s)"

section \<open>Running the code of the caller\<close>

text \<open>
  One step of a program, with \<open>rec\<close> for everything that runs inside it or after it.
  Reading a property of \<^verbatim>\<open>undefined\<close> or \<^verbatim>\<open>null\<close> throws; a property of another
  primitive reads as \<^verbatim>\<open>undefined\<close> (the methods of strings and numbers are not
  modelled); assigning to a property of a primitive throws, the module being strict code.
\<close>

definition step :: "nat \<Rightarrow> (prog \<Rightarrow> val m) \<Rightarrow> prog \<Rightarrow> val m" where
  "step n rec p s =
     (case p of
        Return v \<Rightarrow> (Returned v, s)
      | Throw v \<Rightarrow> (Threw (Thrown v), s)
      | NewObject kvs k \<Rightarrow> rec (k (Ref (next_obj s))) (new_plain False kvs [] s)
      | NewArray vs k \<Rightarrow> rec (k (Ref (next_obj s))) (new_plain True [] vs s)
      | Get ov prop k \<Rightarrow>
          (case ov of
             Ref a \<Rightarrow> (case js_get a prop s of (v, s1) \<Rightarrow> rec (k v) s1)
           | Undefined \<Rightarrow> (Threw TypeError, s)
           | Null \<Rightarrow> (Threw TypeError, s)
           | _ \<Rightarrow> rec (k Undefined) s)
      | Put ov prop v k \<Rightarrow>
          (case ov of
             Ref a \<Rightarrow>
               bnd (js_put (observable n (reactionFn rec)) (publish n (reactionFn rec)) a prop v)
                   (\<lambda>_. rec k) s
           | _ \<Rightarrow> (Threw TypeError, s))
      | Apply f args k \<Rightarrow>
          bnd (apply_fn (publish n (reactionFn rec)) f args) (\<lambda>v. rec (k v)) s
      | Call q k \<Rightarrow> bnd (rec q) (\<lambda>v. rec (k v)) s
      | Observable v k \<Rightarrow>
          bnd (observable n (reactionFn rec) v None) (\<lambda>w. rec (k w)) s
      | Reaction trackedFn effectFn k \<Rightarrow>
          bnd (reaction rec trackedFn effectFn) (\<lambda>h. rec (k h)) s
      | Computed fn k \<Rightarrow>
          bnd (computed n rec fn) (\<lambda>(cache, h). rec (k cache h)) s
      | CallAction fn args k \<Rightarrow> bnd (action rec fn args) (\<lambda>_. rec k) s
      | Dispose h k \<Rightarrow> rec k (dispose h s))"

primrec run :: "nat \<Rightarrow> prog \<Rightarrow> val m" where
  "run 0 p s = (Diverged, s)"
| "run (Suc n) p s = step n (run n) p s"

text \<open>The store of a freshly loaded module.\<close>

definition initial_state :: state where
  "initial_state =
     \<lparr>reactionSubscriptionSets = Map.empty,
      currentlyTracking = None,
      currentActionReactionSets = None,
      rsets = (\<lambda>_. []),
      next_rset = 0,
      objects = (\<lambda>_. \<lparr>is_array = False, is_proxy = False, props = [], elems = [],
                           PARENT_REACTIONS = None, PROPERTY_REACTIONS = Map.empty\<rparr>),
      next_obj = 0,
      closures = (\<lambda>_. (Return Undefined, Return)),
      next_reaction = 0,
      trace = []\<rparr>"

section \<open>Programs that only read\<close>



section \<open>Invariants of a run\<close>

text \<open>
  \<open>keeps P f\<close> says that \<open>f\<close>, started in a state with property \<open>P\<close>, ends in such a
  state, however it ends. \<open>elementary P\<close> says that \<open>P\<close> survives the steps that touch
  neither the store's reaction-sets nor its batch: storing into an object, recording a
  read, making a reaction-set for a key, and allocating.
\<close>

definition keeps :: "(state \<Rightarrow> bool) \<Rightarrow> 'a m \<Rightarrow> bool" where
  "keeps P f \<longleftrightarrow> (\<forall>s res s'. P s \<longrightarrow> f s = (res, s') \<longrightarrow> P s')"

definition elementary :: "(state \<Rightarrow> bool) \<Rightarrow> bool" where
  "elementary P \<longleftrightarrow>
     (\<forall>s a t. P s \<longrightarrow> P (set_object a t s))
     \<and> (\<forall>s rs. P s \<longrightarrow> P (track rs s))
     \<and> (\<forall>s a k. P s \<longrightarrow> P (new_reaction_set a k s))
     \<and> (\<forall>s arr p. P s \<longrightarrow> P (new_proxy arr p s))
     \<and> (\<forall>s arr kvs vs. P s \<longrightarrow> P (new_plain arr kvs vs s))"

section \<open>Programs that run no action\<close>



section \<open>Reactions that nothing can call\<close>

text \<open>
  A reaction is \<open>dead\<close> when it belongs to no reaction-set, is not the reaction of the
  open tracking frame, and has been made already (so that no new reaction gets its
  identity). \<open>silent r es\<close> adds that the events of the log that are about the reaction
  are the list \<open>es\<close>.
\<close>

fun about :: "rid \<Rightarrow> event \<Rightarrow> bool" where
  "about r (Invoked r') = (r' = r)"
| "about r (Effect r' v) = (r' = r)"

definition tracked :: "state \<Rightarrow> rid option" where
  "tracked s = map_option trackedFunction (currentlyTracking s)"

definition dead :: "rid \<Rightarrow> state \<Rightarrow> bool" where
  "dead r s \<longleftrightarrow>
     (\<forall>rs. Some r \<notin> set (rsets s rs)) \<and> tracked s \<noteq> Some r \<and> r < next_reaction s"

definition silent :: "rid \<Rightarrow> event list \<Rightarrow> state \<Rightarrow> bool" where
  "silent r es s \<longleftrightarrow> dead r s \<and> filter (about r) (trace s) = es"

section \<open>Scenarios\<close>

text \<open>
  Two runs of one reaction, as the store sees them: the first run reads the field whose
  reaction-set is 5, the second run has read only the field whose reaction-set is 6 and
  is about to complete.
\<close>

definition c1_first_run :: state where
  "c1_first_run = completeTracking (track 5 (beginTracking 7 initial_state))"

definition c1_second_run :: state where
  "c1_second_run = track 6 (beginTracking 7 c1_first_run)"

text \<open>
  The same in a program:
  \<^verbatim>\<open>const obs = observable({flag: true, a: 1, b: 2});\<close>
  \<^verbatim>\<open>reaction(() => obs.flag ? obs.a : obs.b, v => {});\<close>
  \<^verbatim>\<open>obs.flag = false; obs.a = 5;\<close>
\<close>

definition c1_conditional :: prog where
  "c1_conditional =
     NewObject [(Name ''flag'', Boolean True), (Name ''a'', Number 1), (Name ''b'', Number 2)]
       (\<lambda>plain.
     Observable plain (\<lambda>obs.
     Reaction (Get obs (Name ''flag'') (\<lambda>f.
                 if f = Boolean True then Get obs (Name ''a'') Return
                 else Get obs (Name ''b'') Return))
              (\<lambda>v. Return Undefined) (\<lambda>h.
     Put obs (Name ''flag'') (Boolean False) (
     Put obs (Name ''a'') (Number 5) (Return Undefined)))))"

text \<open>Reaction 3 is in the middle of its tracked function and has read one field.\<close>

definition c7_open_frame :: state where
  "c7_open_frame = track 0 (beginTracking 3 initial_state)"

text \<open>
  A tracked function that makes a reaction while it runs:
  \<^verbatim>\<open>const obs = observable({a: 1});\<close>
  \<^verbatim>\<open>reaction(() => { obs.a; reaction(() => obs.a, v => {}); return obs.a; }, v => {});\<close>
  \<^verbatim>\<open>obs.a = 2;\<close>
  The outer reaction is 0, the inner one is 1.
\<close>

definition c7_nested :: prog where
  "c7_nested =
     NewObject [(Name ''a'', Number 1)] (\<lambda>plain.
     Observable plain (\<lambda>obs.
     Reaction (Get obs (Name ''a'') (\<lambda>x.
                 Reaction (Get obs (Name ''a'') Return) (\<lambda>v. Return Undefined) (\<lambda>h.
                 Get obs (Name ''a'') Return)))
              (\<lambda>v. Return Undefined) (\<lambda>h.
     Put obs (Name ''a'') (Number 2) (Return Undefined))))"



text \<open>
  \<^verbatim>\<open>const s = observable({k: 1}); reaction(() => s.k, v => {})\<close>: a wrapped object
  (at address 1) with a field that a reaction has read.
\<close>

definition c5_setup :: prog where
  "c5_setup =
     NewObject [(Name ''k'', Number 1)] (\<lambda>plain.
     Observable plain (\<lambda>s.
     Reaction (Get s (Name ''k'') Return) (\<lambda>v. Return Undefined) (\<lambda>h.
     Return s)))"

definition c5_state :: state where
  "c5_state = snd (run 10 c5_setup initial_state)"



text \<open>Arithmetic of the callers' code in the scenarios below.\<close>

fun plus_val :: "val \<Rightarrow> val \<Rightarrow> val" where
  "plus_val (Number i) (Number j) = Number (i + j)"
| "plus_val a b = Undefined"

fun less_than_one :: "val \<Rightarrow> bool" where
  "less_than_one (Number i) = (i < 1)"
| "less_than_one v = False"

text \<open>
  \<^verbatim>\<open>const w = observable({a: 1}); reaction(() => w.a, v => {});\<close>
  \<^verbatim>\<open>const w2 = observable(w); w2.a = 2; return [w, w2, w.a, w2.a, w === w2];\<close>
\<close>

definition c2_rewrap :: prog where
  "c2_rewrap =
     NewObject [(Name ''a'', Number 1)] (\<lambda>plain.
     Observable plain (\<lambda>w.
     Reaction (Get w (Name ''a'') Return) (\<lambda>v. Return Undefined) (\<lambda>h.
     Observable w (\<lambda>w2.
     Put w2 (Name ''a'') (Number 2) (
     Get w (Name ''a'') (\<lambda>x.
     Get w2 (Name ''a'') (\<lambda>y.
     NewArray [w, w2, x, y, Boolean (strict_eq w w2)] Return)))))))"


text \<open>
  The shape of the repository's own test \<^verbatim>\<open>testAction\<close>: one computed reads both
  fields, a reaction reads the computed, one action writes both fields.
\<close>

definition c3_single :: prog where
  "c3_single =
     NewObject [(Name ''a'', Number 1), (Name ''b'', Number 2)] (\<lambda>plain.
     Observable plain (\<lambda>obs.
     Computed (Get obs (Name ''a'') (\<lambda>x. Get obs (Name ''b'') (\<lambda>y. Return (plus_val x y))))
       (\<lambda>c h.
     Reaction (computedFn c) (\<lambda>v. Return Undefined) (\<lambda>h2.
     CallAction (\<lambda>args. Put obs (Name ''a'') (Number 10)
                        (Put obs (Name ''b'') (Number 20) (Return Undefined))) []
       (Return Undefined)))))"





text \<open>
  \<^verbatim>\<open>const obs = observable({a: 0, b: 0});\<close>
  \<^verbatim>\<open>const h2 = reaction(() => obs.b, v => {});\<close>
  \<^verbatim>\<open>reaction(() => obs.a, v => { if (!(v < 1)) dispose(h2); });\<close>
  \<^verbatim>\<open>action(() => { obs.a = 1; obs.b = 1; })();\<close>
  \<^verbatim>\<open>obs.b = 2;\<close>
  The reaction behind \<^verbatim>\<open>h2\<close> is 0, the other one is 1.
\<close>

definition c8_dispose :: prog where
  "c8_dispose =
     NewObject [(Name ''a'', Number 0), (Name ''b'', Number 0)] (\<lambda>plain.
     Observable plain (\<lambda>obs.
     Reaction (Get obs (Name ''b'') Return) (\<lambda>v. Return Undefined) (\<lambda>h2.
     Reaction (Get obs (Name ''a'') Return)
              (\<lambda>v. if less_than_one v then Return Undefined
                    else Dispose h2 (Return Undefined)) (\<lambda>h1.
     CallAction (\<lambda>args. Put obs (Name ''a'') (Number 1)
                        (Put obs (Name ''b'') (Number 1) (Return Undefined))) [] (
     Put obs (Name ''b'') (Number 2) (Return Undefined))))))"

text \<open>The same reaction, disposed at the top level before the field changes.\<close>

definition c8_simple :: prog where
  "c8_simple =
     NewObject [(Name ''a'', Number 0), (Name ''b'', Number 0)] (\<lambda>plain.
     Observable plain (\<lambda>obs.
     Reaction (Get obs (Name ''b'') Return) (\<lambda>v. Return Undefined) (\<lambda>h2.
     Dispose h2 (
     Put obs (Name ''b'') (Number 2) (Return Undefined)))))"


section \<open>Tracking frames\<close>

lemma rsets_add_reaction:
  "rsets (add_reaction r x s) rs = (if rs = x then set_add (rsets s x) r else rsets s rs)"
  by (simp add: add_reaction_def)

lemma rsets_fold_add_reaction:
  "rsets (fold (add_reaction r) xs s) rs =
     (if rs \<in> set xs then set_add (rsets s rs) r else rsets s rs)"
proof (induction xs arbitrary: s)
  case Nil
  show ?case by simp
next
  case (Cons x xs)
  have idem: "set_add (set_add ys r) r = set_add ys r" for ys :: "rid option list"
    by (simp add: set_add_def)
  show ?case
    by (simp add: Cons.IH rsets_add_reaction idem)
qed

text \<open>
  C1 as stated fails. Reaction 7 reads the field whose reaction-set is 5 on its first run
  and only the field whose reaction-set is 6 on its second run; after the second
  \<^verbatim>\<open>completeTracking\<close> it still belongs to reaction-set 5. In the program, the
  reaction reads \<open>flag\<close> and \<open>a\<close> on its first run, \<open>flag\<close> and \<open>b\<close> on its second
  run (after \<open>flag\<close> is set to false), and is called a third time when \<open>a\<close>, which
  it no longer reads, is set to 5.
\<close>

theorem completeTracking_keeps_stale_subscription:
  "currentlyTracking c1_second_run = Some \<lparr>trackedFunction = 7, reactionSets = [6]\<rparr>
   \<and> set_has (rsets (completeTracking c1_second_run) 6) 7
   \<and> set_has (rsets (completeTracking c1_second_run) 5) 7
   \<and> trace (snd (run 20 c1_conditional initial_state))
       = [Invoked 0, Effect 0 (Number 1), Invoked 0, Effect 0 (Number 2),
          Invoked 0, Effect 0 (Number 2)]"
proof -
  have store: "currentlyTracking c1_second_run = Some \<lparr>trackedFunction = 7, reactionSets = [6]\<rparr>
   \<and> set_has (rsets (completeTracking c1_second_run) 6) 7
   \<and> set_has (rsets (completeTracking c1_second_run) 5) 7"
    by (simp add: c1_second_run_def c1_first_run_def initial_state_def beginTracking_def
        track_def completeTracking_def add_reaction_def set_add_def set_has_def ins_def)
  have program: "trace (snd (run 20 c1_conditional initial_state))
       = [Invoked 0, Effect 0 (Number 1), Invoked 0, Effect 0 (Number 2),
          Invoked 0, Effect 0 (Number 2)]"
    unfolding c1_conditional_def by code_simp
  from store program show ?thesis by simp
qed

text \<open>
  C1, as the code has it: \<^verbatim>\<open>completeTracking\<close> only adds. The reaction of the open
  frame is added to every reaction-set collected in the frame, every other reaction-set
  is left exactly as it was, and no reaction leaves any reaction-set: a subscription made
  by an earlier run to a field that this run did not read stays in place.
\<close>

theorem completeTracking_only_adds:
  assumes "currentlyTracking s = Some fr"
  shows "rsets (completeTracking s) rs =
           (if rs \<in> set (reactionSets fr)
            then set_add (rsets s rs) (trackedFunction fr)
            else rsets s rs)
         \<and> (rs \<in> set (reactionSets fr)
              \<longrightarrow> set_has (rsets (completeTracking s) rs) (trackedFunction fr))
         \<and> (set_has (rsets s rs) r \<longrightarrow> set_has (rsets (completeTracking s) rs) r)
         \<and> currentlyTracking (completeTracking s) = None"
proof -
  have eq: "rsets (completeTracking s) rs =
           (if rs \<in> set (reactionSets fr)
            then set_add (rsets s rs) (trackedFunction fr)
            else rsets s rs)"
    using assms by (simp add: completeTracking_def rsets_fold_add_reaction)
  have joined: "set_has (rsets (completeTracking s) rs) (trackedFunction fr)"
    if "rs \<in> set (reactionSets fr)"
    using that by (auto simp: eq set_has_def set_add_def)
  have keep: "set_has (rsets (completeTracking s) rs) r" if "set_has (rsets s rs) r"
    using that by (auto simp: eq set_has_def set_add_def)
  have closed: "currentlyTracking (completeTracking s) = None"
    using assms by (simp add: completeTracking_def)
  from eq joined keep closed show ?thesis by blast
qed

theorem completeTracking_only_adds_witness:
  "rsets (completeTracking c1_second_run) 6 = [Some 7]
   \<and> rsets (completeTracking c1_second_run) 5 = [Some 7]
   \<and> currentlyTracking (completeTracking c1_second_run) = None"
proof -
  have fr: "currentlyTracking c1_second_run = Some \<lparr>trackedFunction = 7, reactionSets = [6]\<rparr>"
    by (simp add: c1_second_run_def c1_first_run_def initial_state_def beginTracking_def
        track_def completeTracking_def add_reaction_def ins_def)
  have r0: "rsets c1_second_run 5 = [Some 7]" and r1: "rsets c1_second_run 6 = []"
    by (simp_all add: c1_second_run_def c1_first_run_def initial_state_def beginTracking_def
        track_def completeTracking_def add_reaction_def ins_def set_add_def)
  show ?thesis
    using completeTracking_only_adds [OF fr, of 6 7] completeTracking_only_adds [OF fr, of 5 7]
    by (simp add: r0 r1 set_add_def)
qed

text \<open>
  C7 as stated fails: \<^verbatim>\<open>beginTracking\<close> has no failure path. Called for reaction 4
  while the frame of reaction 3 is open, it returns, and the open frame, with the
  reaction-set it had collected, is gone. In the program, the tracked function of
  reaction 0 makes reaction 1 while it runs: nothing is thrown, reaction 1 alone ends up
  in the reaction-set of \<open>a\<close>, and the later write to \<open>a\<close> calls reaction 1 only.
\<close>

theorem beginTracking_replaces_open_frame:
  "currentlyTracking c7_open_frame = Some \<lparr>trackedFunction = 3, reactionSets = [0]\<rparr>
   \<and> currentlyTracking (beginTracking 4 c7_open_frame)
       = Some \<lparr>trackedFunction = 4, reactionSets = []\<rparr>
   \<and> fst (run 20 c7_nested initial_state) = Returned Undefined
   \<and> rsets (snd (run 20 c7_nested initial_state)) 0 = [Some 1]
   \<and> trace (snd (run 20 c7_nested initial_state))
       = [Invoked 0, Invoked 1, Effect 1 (Number 1), Effect 0 (Number 1),
          Invoked 1, Effect 1 (Number 2)]"
proof -
  have store: "currentlyTracking c7_open_frame = Some \<lparr>trackedFunction = 3, reactionSets = [0]\<rparr>
   \<and> currentlyTracking (beginTracking 4 c7_open_frame)
       = Some \<lparr>trackedFunction = 4, reactionSets = []\<rparr>"
    by (simp add: c7_open_frame_def initial_state_def beginTracking_def track_def ins_def)
  have program: "fst (run 20 c7_nested initial_state) = Returned Undefined
   \<and> rsets (snd (run 20 c7_nested initial_state)) 0 = [Some 1]
   \<and> trace (snd (run 20 c7_nested initial_state))
       = [Invoked 0, Invoked 1, Effect 1 (Number 1), Effect 0 (Number 1),
          Invoked 1, Effect 1 (Number 2)]"
    unfolding c7_nested_def by code_simp
  from store program show ?thesis by simp
qed

text \<open>
  C7, as the code has it: \<^verbatim>\<open>beginTracking\<close> always succeeds. Whether or not a frame is
  open, the frame afterwards is a new one for the given reaction with nothing collected,
  the reaction has a subscription record (an empty one unless it had one already), and
  no reaction-set and no batch is touched.
\<close>

theorem beginTracking_always_opens:
  "currentlyTracking (beginTracking func s) = Some \<lparr>trackedFunction = func, reactionSets = []\<rparr>
   \<and> reactionSubscriptionSets (beginTracking func s) func
       = Some (case reactionSubscriptionSets s func of None \<Rightarrow> [] | Some subs \<Rightarrow> subs)
   \<and> rsets (beginTracking func s) = rsets s
   \<and> currentActionReactionSets (beginTracking func s) = currentActionReactionSets s"
  by (cases "reactionSubscriptionSets s func") (simp_all add: beginTracking_def)

section \<open>Reads through the proxy\<close>

lemma track_frame:
  "objects (track rs s) = objects s"
  "currentActionReactionSets (track rs s) = currentActionReactionSets s"
  "rsets (track rs s) = rsets s"
  "trace (track rs s) = trace s"
  "next_obj (track rs s) = next_obj s"
  "next_rset (track rs s) = next_rset s"
  "next_reaction (track rs s) = next_reaction s"
  "closures (track rs s) = closures s"
  by (simp_all add: track_def Let_def split: option.splits)






section \<open>Wrapping an array at the root\<close>






section \<open>Writes through the proxy\<close>

text \<open>
  C5. A write of a value that is identical (\<^verbatim>\<open>===\<close>) to the value stored at the key
  does nothing at all: the trap returns \<^verbatim>\<open>true\<close> and the whole state, with the
  reaction-sets, the batch, the tracking frame and the log of calls, is the state before
  the write. In a program, the assignment to a property of a wrapped object is a step
  without effect.
\<close>

theorem proxyHandler_set_same_value:
  assumes "strict_eq (own_get (objects s target) prop) v"
  shows "proxyHandler_set wrap pub target prop v s = (Returned True, s)
         \<and> (is_proxy (objects s target)
              \<longrightarrow> run (Suc n) (Put (Ref target) prop v cont) s = run n cont s)"
  using assms by (simp add: proxyHandler_set_def step_def js_put_def bnd_def)

theorem proxyHandler_set_same_value_witness:
  "proxyHandler_set (observable 3 (reactionFn (run 3))) (publish 3 (reactionFn (run 3)))
       1 (Name ''k'') (Number 1) c5_state = (Returned True, c5_state)
   \<and> run (Suc 3) (Put (Ref 1) (Name ''k'') (Number 1) (Return Undefined)) c5_state
       = run 3 (Return Undefined) c5_state"
proof -
  have same: "strict_eq (own_get (objects c5_state 1) (Name ''k'')) (Number 1)"
    unfolding c5_state_def c5_setup_def by code_simp
  have px: "is_proxy (objects c5_state 1)"
    unfolding c5_state_def c5_setup_def by code_simp
  from proxyHandler_set_same_value [OF same] px show ?thesis by blast
qed





section \<open>Wrapping a wrapped value\<close>

lemma bnd_Returned:
  "bnd f g s = (Returned y, s') \<Longrightarrow> \<exists>x s1. f s = (Returned x, s1) \<and> g x s1 = (Returned y, s')"
  by (cases "f s") (auto simp: bnd_def split: result.splits)

text \<open>
  Whatever object \<^verbatim>\<open>observable\<close> is given, wrapped or not, the value it returns is
  the proxy it has just made.
\<close>

lemma observable_always_rewraps:
  assumes "observable n call (Ref a) parentReactionSet s = (Returned w, s')"
  shows "w = Ref (next_obj s)"
proof (cases n)
  case 0
  with assms show ?thesis by simp
next
  case (Suc m)
  let ?copy = "if is_array (objects s a)
                 then copy_elements m (publish m call) a (next_obj s) 0
                 else copy_properties
                        (proxyHandler_set (observable m call) (publish m call))
                        a (next_obj s) (own_keys (objects s a))"
  have "bnd ?copy (\<lambda>_. ret (Ref (next_obj s)))
            (new_proxy (is_array (objects s a)) parentReactionSet s)
          = (Returned w, s')"
    using assms Suc by (simp add: Object_hasOwnProperty_def Let_def)
  from bnd_Returned [OF this] show ?thesis by (auto simp: ret_def)
qed

text \<open>
  C2 at the failing input \<^verbatim>\<open>observable(observable({a: 1}))\<close>. The wrapped object
  \<open>w\<close> is at address 1 and a reaction has read \<open>w.a\<close>. \<^verbatim>\<open>observable(w)\<close> returns
  another object \<open>w2\<close>, at address 2, so \<^verbatim>\<open>w === w2\<close> is false; the write
  \<^verbatim>\<open>w2.a = 2\<close> leaves \<open>w.a\<close> at 1 and does not run the reaction, which was called
  once, when it was made. The program returns the array
  \<^verbatim>\<open>[w, w2, w.a, w2.a, w === w2]\<close>, at address 3.
\<close>

theorem observable_rewraps_wrapped_value:
  "fst (run 12 c2_rewrap initial_state) = Returned (Ref 3)
   \<and> elems (objects (snd (run 12 c2_rewrap initial_state)) 3)
       = [Some (Ref 1), Some (Ref 2), Some (Number 1), Some (Number 2), Some (Boolean False)]
   \<and> is_proxy (objects (snd (run 12 c2_rewrap initial_state)) 1)
   \<and> trace (snd (run 12 c2_rewrap initial_state)) = [Invoked 0, Effect 0 (Number 1)]"
  unfolding c2_rewrap_def by code_simp

section \<open>Actions and computed values\<close>

lemma set_fold_ins: "set (fold ins xs acc) = set acc \<union> set xs"
  by (induction xs arbitrary: acc) (auto simp: ins_def)

lemma distinct_fold_ins: "distinct acc \<Longrightarrow> distinct (fold ins xs acc)"
  by (induction xs arbitrary: acc) (auto simp: ins_def)

lemma set_map_filter_id: "set (List.map_filter id xs) = {r. Some r \<in> set xs}"
  by (induction xs) (auto simp: List.map_filter_def)

lemma all_reactions_union:
  "all_reactions sets xs acc = Some ys \<Longrightarrow> distinct acc \<Longrightarrow>
     distinct ys \<and> set ys = set acc \<union> {r. \<exists>rs. Some rs \<in> set xs \<and> Some r \<in> set (sets rs)}"
proof (induction sets xs acc rule: all_reactions.induct)
  case (1 sets allReactions)
  then show ?case by simp
next
  case (2 sets rest allReactions)
  then show ?case by simp
next
  case (3 sets rs rest allReactions)
  from 3 have "distinct ys \<and> set ys = set (fold ins (List.map_filter id (sets rs)) allReactions)
                 \<union> {r. \<exists>rs. Some rs \<in> set rest \<and> Some r \<in> set (sets rs)}"
    by (simp add: distinct_fold_ins)
  then show ?case
    by (auto simp: set_fold_ins set_map_filter_id)
qed


text \<open>
  With one computed that reads both fields (the repository's test), the reaction of the
  computed and the reaction that reads the computed each run once after the action.
\<close>

lemma single_computed_fires_once:
  "trace (snd (run 30 c3_single initial_state))
     = [Invoked 0, Effect 0 (Number 3), Invoked 1, Effect 1 (Number 3),
        Invoked 0, Effect 0 (Number 30), Invoked 1, Effect 1 (Number 30)]"
  unfolding c3_single_def by code_simp




section \<open>Invariants through wrapping and writing\<close>

lemma keepsI: "(\<And>s res s'. P s \<Longrightarrow> f s = (res, s') \<Longrightarrow> P s') \<Longrightarrow> keeps P f"
  by (simp add: keeps_def)

lemma keepsD: "keeps P f \<Longrightarrow> P s \<Longrightarrow> f s = (res, s') \<Longrightarrow> P s'"
  by (auto simp: keeps_def)

lemma keeps_ret: "keeps P (ret x)"
  by (simp add: keeps_def ret_def)

lemma keeps_bnd:
  assumes "keeps P f" and "\<And>x. keeps P (g x)"
  shows "keeps P (bnd f g)"
proof (rule keepsI)
  fix s res s'
  assume P: "P s" and b: "bnd f g s = (res, s')"
  obtain r1 s1 where f: "f s = (r1, s1)" by (cases "f s")
  have P1: "P s1" using keepsD [OF assms(1) P f] .
  show "P s'"
  proof (cases r1)
    case (Returned x)
    then have "g x s1 = (res, s')" using b f by (simp add: bnd_def)
    then show ?thesis using keepsD [OF assms(2) P1] by blast
  next
    case (Threw e)
    then show ?thesis using b f P1 by (simp add: bnd_def)
  next
    case Diverged
    then show ?thesis using b f P1 by (simp add: bnd_def)
  qed
qed

lemma elementaryD:
  assumes "elementary P" and "P s"
  shows "P (set_object a t s)" "P (track rs s)" "P (new_reaction_set a k s)"
    "P (new_proxy arr p s)" "P (new_plain arr kvs vs s)"
  using assms by (auto simp: elementary_def)

lemma el_proxyHandler_get:
  assumes "elementary P" and "P s" and "proxyHandler_get a k s = (v, s1)"
  shows "P s1"
  using assms(3) elementaryD(2) [OF assms(1,2)] assms(2)
  by (auto simp: proxyHandler_get_def Let_def split: if_splits option.splits)

lemma el_js_get:
  assumes "elementary P" and "P s" and "js_get a k s = (v, s1)"
  shows "P s1"
  using assms el_proxyHandler_get [OF assms(1,2)]
  by (auto simp: js_get_def split: if_splits)

lemma el_ensure:
  assumes "elementary P" and "P s"
  shows "P (ensure_reaction_set a k s)"
  using assms elementaryD(3) [OF assms] by (simp add: ensure_reaction_set_def)

lemma el_mutator_call:
  assumes el: "elementary P" and pub: "\<And>rs. keeps P (pub rs)"
  shows "keeps P (mutator_call pub target m args)"
proof (rule keepsI)
  fix s res s'
  assume B: "P s" and c: "mutator_call pub target m args s = (res, s')"
  show "P s'"
  proof (cases "array_builtin m args (elems (objects s target))")
    case None
    with c B show ?thesis by (simp add: mutator_call_def)
  next
    case (Some p)
    obtain r es where p: "p = (r, es)" by (cases p)
    let ?s1 = "set_object target ((objects s target)\<lparr>elems := es\<rparr>) s"
    have k: "keeps P (bnd (pub (PARENT_REACTIONS (objects s target))) (\<lambda>_. ret r))"
      by (intro keeps_bnd keeps_ret pub)
    have e: "bnd (pub (PARENT_REACTIONS (objects s target))) (\<lambda>_. ret r) ?s1 = (res, s')"
      using c Some p by (simp add: mutator_call_def Let_def)
    have "P ?s1" using elementaryD(1) [OF el B] .
    from keepsD [OF k this e] show ?thesis .
  qed
qed

lemma el_apply_fn:
  assumes el: "elementary P" and pub: "\<And>rs. keeps P (pub rs)"
  shows "keeps P (apply_fn pub f args)"
proof (rule keepsI)
  fix s res s'
  assume B: "P s" and c: "apply_fn pub f args s = (res, s')"
  show "P s'"
  proof (cases f)
    case (Mutator t m)
    have k: "keeps P (mutator_call pub t m args)"
      by (intro el_mutator_call el pub)
    from c Mutator have "mutator_call pub t m args s = (res, s')" by (simp add: apply_fn_def)
    from keepsD [OF k B this] show ?thesis .
  qed (use c B in \<open>simp_all add: apply_fn_def\<close>)
qed

lemma el_proxyHandler_set:
  assumes el: "elementary P"
    and w: "\<And>v p. keeps P (wrap v p)" and p: "\<And>rs. keeps P (pub rs)"
  shows "keeps P (proxyHandler_set wrap pub target pk v)"
proof (rule keepsI)
  fix s res s'
  assume B: "P s" and c: "proxyHandler_set wrap pub target pk v s = (res, s')"
  show "P s'"
  proof (cases "strict_eq (own_get (objects s target) pk) v")
    case True
    with c B show ?thesis by (simp add: proxyHandler_set_def)
  next
    case False
    let ?s1 = "ensure_reaction_set target pk s"
    let ?after = "\<lambda>w s2.
                 case own_put (objects s2 target) pk w of
                   None \<Rightarrow> (Threw RangeError, s2)
                 | Some t' \<Rightarrow>
                     (let s3 = set_object target t' s2
                      in bnd (if \<not> has_own (objects s target) pk then
                                (case PARENT_REACTIONS (objects s3 target) of
                                   Some parent \<Rightarrow> pub (Some parent)
                                 | None \<Rightarrow> ret ())
                              else pub (PROPERTY_REACTIONS (objects s3 target) pk))
                             (\<lambda>_. ret True) s3)"
    have k: "keeps P (?after w)" for w
    proof (rule keepsI)
      fix s2 r s4
      assume B2: "P s2" and a: "?after w s2 = (r, s4)"
      show "P s4"
      proof (cases "own_put (objects s2 target) pk w")
        case None
        with a B2 show ?thesis by simp
      next
        case (Some t')
        let ?s3 = "set_object target t' s2"
        let ?pubstep = "if \<not> has_own (objects s target) pk then
                                (case PARENT_REACTIONS (objects ?s3 target) of
                                   Some parent \<Rightarrow> pub (Some parent)
                                 | None \<Rightarrow> ret ())
                              else pub (PROPERTY_REACTIONS (objects ?s3 target) pk)"
        have kp: "keeps P ?pubstep"
          by (auto simp: p keeps_ret split: option.splits)
        have kb: "keeps P (bnd ?pubstep (\<lambda>_. ret True))"
          by (intro keeps_bnd keeps_ret kp)
        have e: "bnd ?pubstep (\<lambda>_. ret True) ?s3 = (r, s4)"
          using a Some by (simp add: Let_def)
        have "P ?s3" using elementaryD(1) [OF el B2] .
        from keepsD [OF kb this e] show ?thesis .
      qed
    qed
    have kb: "keeps P (bnd (wrap v (PROPERTY_REACTIONS (objects ?s1 target) pk)) ?after)"
      by (intro keeps_bnd w k)
    have e: "bnd (wrap v (PROPERTY_REACTIONS (objects ?s1 target) pk)) ?after ?s1 = (res, s')"
      using c False by (simp add: proxyHandler_set_def Let_def)
    have "P ?s1" using el_ensure [OF el B] .
    from keepsD [OF kb this e] show ?thesis .
  qed
qed

lemma el_copy_properties:
  assumes el: "elementary P" and setter: "\<And>a k v. keeps P (setter a k v)"
  shows "keeps P (copy_properties setter source proxy keys)"
proof (induction keys)
  case Nil
  show ?case by (rule keepsI) simp
next
  case (Cons k keys)
  show ?case
  proof (rule keepsI)
    fix s res s'
    assume B: "P s" and c: "copy_properties setter source proxy (k # keys) s = (res, s')"
    obtain x s1 where g: "js_get source k s = (x, s1)" by (cases "js_get source k s")
    have B1: "P s1" using el_js_get [OF el B g] .
    have kb: "keeps P (bnd (setter proxy k x) (\<lambda>_. copy_properties setter source proxy keys))"
      by (intro keeps_bnd setter Cons.IH)
    have e: "bnd (setter proxy k x) (\<lambda>_. copy_properties setter source proxy keys) s1 = (res, s')"
      using c g by simp
    from keepsD [OF kb B1 e] show "P s'" .
  qed
qed

lemma el_copy_elements:
  assumes el: "elementary P" and pub: "\<And>rs. keeps P (pub rs)"
  shows "keeps P (copy_elements n pub source proxy i)"
proof (induction n arbitrary: i)
  case 0
  show ?case by (rule keepsI) simp
next
  case (Suc n)
  show ?case
  proof (rule keepsI)
    fix s res s'
    assume B: "P s" and c: "copy_elements (Suc n) pub source proxy i s = (res, s')"
    obtain len s1 where g1: "js_get source (Name ''length'') s = (len, s1)"
      by (cases "js_get source (Name ''length'') s")
    have B1: "P s1" using el_js_get [OF el B g1] .
    show "P s'"
    proof (cases "less_than_length i len")
      case False
      with c g1 B1 show ?thesis by simp
    next
      case True
      obtain push s2 where g2: "proxyHandler_get proxy (Name ''push'') s1 = (push, s2)"
        by (cases "proxyHandler_get proxy (Name ''push'') s1")
      obtain x s3 where g3: "js_get source (Index i) s2 = (x, s3)"
        by (cases "js_get source (Index i) s2")
      have B3: "P s3"
        using el_js_get [OF el el_proxyHandler_get [OF el B1 g2] g3] .
      have kb: "keeps P (bnd (apply_fn pub push [x])
                  (\<lambda>_. copy_elements n pub source proxy (Suc i)))"
        by (intro keeps_bnd el_apply_fn el pub Suc.IH)
      have e: "bnd (apply_fn pub push [x]) (\<lambda>_. copy_elements n pub source proxy (Suc i)) s3
                 = (res, s')"
        using c g1 True g2 g3 by simp
      from keepsD [OF kb B3 e] show ?thesis .
    qed
  qed
qed

lemma el_observable:
  assumes el: "elementary P" and pub: "\<And>m rs. keeps P (publish m call rs)"
  shows "keeps P (observable n call v p)"
proof (induction n arbitrary: v p)
  case 0
  show ?case by (rule keepsI) simp
next
  case (Suc n)
  show ?case
  proof (rule keepsI)
    fix s res s'
    assume B: "P s" and c: "observable (Suc n) call v p s = (res, s')"
    show "P s'"
    proof (cases "is_object v")
      case False
      with c B show ?thesis by simp
    next
      case True
      let ?copy = "if is_array (objects s (ref_of v))
                 then copy_elements n (publish n call) (ref_of v) (next_obj s) 0
                 else copy_properties
                        (proxyHandler_set (observable n call) (publish n call))
                        (ref_of v) (next_obj s) (own_keys (objects s (ref_of v)))"
      have kc: "keeps P ?copy"
        by (simp add: el_copy_elements el_copy_properties el_proxyHandler_set el pub Suc.IH)
      have kb: "keeps P (bnd ?copy (\<lambda>_. ret (Ref (next_obj s))))"
        by (intro keeps_bnd keeps_ret kc)
      have e: "bnd ?copy (\<lambda>_. ret (Ref (next_obj s)))
                 (new_proxy (is_array (objects s (ref_of v))) p s) = (res, s')"
        using c True by (simp add: Object_hasOwnProperty_def Let_def)
      have "P (new_proxy (is_array (objects s (ref_of v))) p s)"
        using elementaryD(4) [OF el B] .
      from keepsD [OF kb this e] show ?thesis .
    qed
  qed
qed

lemma el_js_put:
  assumes el: "elementary P"
    and w: "\<And>v p. keeps P (wrap v p)" and p: "\<And>rs. keeps P (pub rs)"
  shows "keeps P (js_put wrap pub a pk v)"
proof (rule keepsI)
  fix s res s'
  assume B: "P s" and c: "js_put wrap pub a pk v s = (res, s')"
  show "P s'"
  proof (cases "is_proxy (objects s a)")
    case True
    have k: "keeps P (proxyHandler_set wrap pub a pk v)"
      by (intro el_proxyHandler_set el w p)
    from c True have "proxyHandler_set wrap pub a pk v s = (res, s')" by (simp add: js_put_def)
    from keepsD [OF k B this] show ?thesis .
  next
    case False
    with c B elementaryD(1) [OF el B] show ?thesis
      by (auto simp: js_put_def split: option.splits)
  qed
qed


section \<open>An open batch stays open\<close>

















section \<open>Reactions\<close>






lemma completeTracking_frame:
  "trace (completeTracking s) = trace s" "closures (completeTracking s) = closures s"
proof -
  have "trace (fold (add_reaction r) xs s) = trace s
        \<and> closures (fold (add_reaction r) xs s) = closures s" for r xs
    by (induction xs arbitrary: s) (simp_all add: add_reaction_def)
  then show "trace (completeTracking s) = trace s" "closures (completeTracking s) = closures s"
    by (simp_all add: completeTracking_def split: option.splits)
qed







section \<open>Disposal\<close>

lemma rsets_delete_reaction:
  "rsets (delete_reaction r x s) rs = (if rs = x then set_delete (rsets s x) r else rsets s rs)"
  by (simp add: delete_reaction_def)

lemma rsets_fold_delete_reaction:
  "rsets (fold (delete_reaction r) xs s) rs =
     (if rs \<in> set xs then set_delete (rsets s rs) r else rsets s rs)"
proof (induction xs arbitrary: s)
  case Nil
  show ?case by simp
next
  case (Cons x xs)
  have idem: "set_delete (set_delete ys r) r = set_delete ys r" for ys :: "rid option list"
    by (simp add: set_delete_def)
  show ?case
    by (simp add: Cons.IH rsets_delete_reaction idem)
qed

lemma subs_fold_delete_reaction:
  "reactionSubscriptionSets (fold (delete_reaction r) xs s) = reactionSubscriptionSets s"
  by (induction xs arbitrary: s) (simp_all add: delete_reaction_def)

text \<open>
  What \<^verbatim>\<open>dispose\<close> does do: the reaction leaves every reaction-set of its subscription
  record, and the record is forgotten.
\<close>

lemma store_dispose_unsubscribes:
  assumes "reactionSubscriptionSets s r = Some subs"
  shows "rsets (store_dispose r s) rs =
           (if rs \<in> set subs then set_delete (rsets s rs) r else rsets s rs)"
    and "reactionSubscriptionSets (store_dispose r s) r = None"
    and "rs \<in> set subs \<Longrightarrow> \<not> set_has (rsets (store_dispose r s) rs) r"
  using assms
  by (auto simp: store_dispose_def Let_def rsets_fold_delete_reaction subs_fold_delete_reaction
      set_has_def set_delete_def)

lemma tracked_track: "tracked (track rs s) = tracked s"
  by (simp add: tracked_def track_def Let_def split: option.splits)

lemma elementary_silent: "elementary (silent r es)"
  unfolding elementary_def
proof (intro conjI allI impI)
  fix s a t assume "silent r es s"
  then show "silent r es (set_object a t s)"
    by (simp add: silent_def dead_def tracked_def set_object_def)
next
  fix s rs assume "silent r es s"
  then show "silent r es (track rs s)"
    by (simp add: silent_def dead_def tracked_track track_frame)
next
  fix s a k assume "silent r es s"
  then show "silent r es (new_reaction_set a k s)"
    by (simp add: silent_def dead_def tracked_def new_reaction_set_def Let_def)
next
  fix s arr p assume "silent r es s"
  then show "silent r es (new_proxy arr p s)"
    by (simp add: silent_def dead_def tracked_def new_proxy_def)
next
  fix s arr kvs vs assume "silent r es s"
  then show "silent r es (new_plain arr kvs vs s)"
    by (simp add: silent_def dead_def tracked_def new_plain_def)
qed

lemma silent_for_of_set:
  assumes call: "\<And>r'. r' \<noteq> r \<Longrightarrow> keeps (silent r es) (call r')"
  shows "keeps (silent r es) (for_of_set n call rs i)"
proof (induction n arbitrary: i)
  case 0
  show ?case by (rule keepsI) simp
next
  case (Suc n)
  show ?case
  proof (rule keepsI)
    fix s res s'
    assume P: "silent r es s" and c: "for_of_set (Suc n) call rs i s = (res, s')"
    show "silent r es s'"
    proof (cases "i < length (rsets s rs)")
      case False
      with c P show ?thesis by simp
    next
      case True
      show ?thesis
      proof (cases "rsets s rs ! i")
        case None
        with c True have "for_of_set n call rs (Suc i) s = (res, s')" by simp
        from keepsD [OF Suc.IH P this] show ?thesis .
      next
        case (Some r')
        have "Some r' \<in> set (rsets s rs)" using True Some by (metis nth_mem)
        then have ne: "r' \<noteq> r" using P by (auto simp: silent_def dead_def)
        have kb: "keeps (silent r es) (bnd (call r') (\<lambda>_. for_of_set n call rs (Suc i)))"
          by (intro keeps_bnd call ne Suc.IH)
        have e: "bnd (call r') (\<lambda>_. for_of_set n call rs (Suc i)) s = (res, s')"
          using c True Some by simp
        from keepsD [OF kb P e] show ?thesis .
      qed
    qed
  qed
qed

lemma silent_batch_update:
  "silent r es (s\<lparr>currentActionReactionSets := b\<rparr>) = silent r es s"
  by (simp add: silent_def dead_def tracked_def)

lemma silent_publish:
  assumes call: "\<And>r'. r' \<noteq> r \<Longrightarrow> keeps (silent r es) (call r')"
  shows "keeps (silent r es) (publish n call rs)"
proof (rule keepsI)
  fix s res s'
  assume P: "silent r es s" and c: "publish n call rs s = (res, s')"
  show "silent r es s'"
  proof (cases "currentActionReactionSets s")
    case (Some batch)
    with c P show ?thesis by (auto simp: publish_def silent_batch_update)
  next
    case None
    show ?thesis
    proof (cases rs)
      case None
      with c P \<open>currentActionReactionSets s = None\<close> show ?thesis by (simp add: publish_def)
    next
      case (Some i)
      with c \<open>currentActionReactionSets s = None\<close>
      have "for_of_set n call i 0 s = (res, s')" by (simp add: publish_def)
      from keepsD [OF silent_for_of_set [OF call] P this] show ?thesis by simp
    qed
  qed
qed

lemma silent_for_each:
  assumes call: "\<And>r'. r' \<noteq> r \<Longrightarrow> keeps (silent r es) (call r')" and "r \<notin> set xs"
  shows "keeps (silent r es) (for_each call xs)"
  using assms(2)
proof (induction xs)
  case Nil
  show ?case by (rule keepsI) simp
next
  case (Cons x xs)
  have "keeps (silent r es) (bnd (call x) (\<lambda>_. for_each call xs))"
    using Cons by (intro keeps_bnd call) simp_all
  then show ?case by (simp add: keeps_def)
qed

lemma silent_completeAction:
  assumes call: "\<And>r'. r' \<noteq> r \<Longrightarrow> keeps (silent r es) (call r')"
  shows "keeps (silent r es) (completeAction call)"
proof (rule keepsI)
  fix s res s'
  assume P: "silent r es s" and c: "completeAction call s = (res, s')"
  let ?s1 = "s\<lparr>currentActionReactionSets := None\<rparr>"
  have P1: "silent r es ?s1" using P by (simp add: silent_batch_update)
  show "silent r es s'"
  proof (cases "currentActionReactionSets s")
    case None
    with c P1 show ?thesis by (simp add: completeAction_def)
  next
    case (Some batch)
    show ?thesis
    proof (cases "all_reactions (rsets s) batch []")
      case None
      with c Some P1 show ?thesis by (simp add: completeAction_def publishAll_def)
    next
      case (Some ys)
      have "r \<notin> set ys"
        using all_reactions_union [OF Some] P by (auto simp: silent_def dead_def)
      then have k: "keeps (silent r es) (for_each call ys)"
        by (intro silent_for_each call)
      have "for_each call ys ?s1 = (res, s')"
        using c Some \<open>currentActionReactionSets s = Some batch\<close>
        by (simp add: completeAction_def publishAll_def)
      from keepsD [OF k P1 this] show ?thesis .
    qed
  qed
qed

lemma about_other: "r' \<noteq> r \<Longrightarrow> \<not> about r (Invoked r')" "r' \<noteq> r \<Longrightarrow> \<not> about r (Effect r' v)"
  by simp_all

lemma silent_begin:
  assumes "silent r es s" and "r' \<noteq> r"
  shows "silent r es (beginTracking r' (log (Invoked r') s))"
  using assms by (simp add: silent_def dead_def tracked_def beginTracking_def log_def Let_def)

lemma rsets_complete_subset:
  "Some r \<in> set (rsets (completeTracking s) rs) \<Longrightarrow>
     Some r \<in> set (rsets s rs) \<or> tracked s = Some r"
  by (cases "currentlyTracking s")
     (auto simp: completeTracking_def rsets_fold_add_reaction set_add_def tracked_def
           split: if_splits)

lemma completeTracking_other:
  "next_reaction (completeTracking s) = next_reaction s"
  "tracked (completeTracking s) = None"
proof -
  have "next_reaction (fold (add_reaction r) xs s) = next_reaction s" for r xs
    by (induction xs arbitrary: s) (simp_all add: add_reaction_def)
  then show "next_reaction (completeTracking s) = next_reaction s"
    by (simp add: completeTracking_def split: option.splits)
  show "tracked (completeTracking s) = None"
    by (simp add: completeTracking_def tracked_def split: option.splits)
qed

lemma silent_complete:
  assumes P: "silent r es s" and ne: "r' \<noteq> r"
  shows "silent r es (log (Effect r' v) (completeTracking s))"
proof -
  let ?s' = "log (Effect r' v) (completeTracking s)"
  have d: "dead r s" and t: "filter (about r) (trace s) = es"
    using P by (simp_all add: silent_def)
  have "Some r \<notin> set (rsets ?s' rs)" for rs
    using rsets_complete_subset [of r s rs] d by (auto simp: log_def dead_def)
  moreover have "tracked ?s' \<noteq> Some r"
    using completeTracking_other(2) [of s] by (simp add: tracked_def log_def)
  moreover have "r < next_reaction ?s'"
    using d by (simp add: log_def completeTracking_other dead_def)
  moreover have "filter (about r) (trace ?s') = es"
    using t ne by (simp add: log_def completeTracking_frame)
  ultimately show ?thesis by (simp add: silent_def dead_def)
qed

lemma silent_reactionFn:
  assumes ne: "r' \<noteq> r" and rec: "\<And>q. keeps (silent r es) (rec q)"
  shows "keeps (silent r es) (reactionFn rec r')"
proof (rule keepsI)
  fix s res s'
  assume P: "silent r es s" and c: "reactionFn rec r' s = (res, s')"
  obtain tf ef where cl: "closures s r' = (tf, ef)" by (cases "closures s r'")
  let ?s1 = "beginTracking r' (log (Invoked r') s)"
  let ?g = "\<lambda>result s2. bnd (rec (ef result)) (\<lambda>_. ret ())
                          (log (Effect r' result) (completeTracking s2))"
  have kg: "keeps (silent r es) (?g x)" for x
  proof (rule keepsI)
    fix s2 r2 s3
    assume P2: "silent r es s2" and e: "?g x s2 = (r2, s3)"
    have kb: "keeps (silent r es) (bnd (rec (ef x)) (\<lambda>_. ret ()))"
      by (intro keeps_bnd keeps_ret rec)
    from keepsD [OF kb silent_complete [OF P2 ne] e] show "silent r es s3" .
  qed
  have kb: "keeps (silent r es) (bnd (rec tf) ?g)"
    by (intro keeps_bnd rec kg)
  have e: "bnd (rec tf) ?g ?s1 = (res, s')"
    using cl c by (simp add: reactionFn_def)
  from keepsD [OF kb silent_begin [OF P ne] e] show "silent r es s'" .
qed

lemma silent_reaction:
  assumes rec: "\<And>q. keeps (silent r es) (rec q)"
  shows "keeps (silent r es) (reaction rec tf ef)"
proof (rule keepsI)
  fix s res s'
  assume P: "silent r es s" and c: "reaction rec tf ef s = (res, s')"
  let ?r = "next_reaction s"
  let ?s0 = "s\<lparr>closures := (closures s)(?r := (tf, ef)), next_reaction := Suc ?r\<rparr>"
  have ne: "?r \<noteq> r" using P by (simp add: silent_def dead_def)
  have P0: "silent r es ?s0" using P by (simp add: silent_def dead_def tracked_def)
  have kb: "keeps (silent r es) (bnd (reactionFn rec ?r) (\<lambda>_. ret (Handle (Some ?r))))"
    by (intro keeps_bnd keeps_ret silent_reactionFn ne rec)
  have e: "bnd (reactionFn rec ?r) (\<lambda>_. ret (Handle (Some ?r))) ?s0 = (res, s')"
    using c by (simp add: reaction_def Let_def)
  from keepsD [OF kb P0 e] show "silent r es s'" .
qed

lemma silent_call:
  assumes rec: "\<And>q. keeps (silent r es) (rec q)"
  shows "r' \<noteq> r \<Longrightarrow> keeps (silent r es) (reactionFn rec r')"
  by (rule silent_reactionFn [OF _ rec])

lemma silent_action:
  assumes rec: "\<And>q. keeps (silent r es) (rec q)"
  shows "keeps (silent r es) (action rec fn args)"
proof (rule keepsI)
  fix s res s'
  assume P: "silent r es s" and c: "action rec fn args s = (res, s')"
  have kb: "keeps (silent r es) (bnd (rec (fn args)) (\<lambda>_. completeAction (reactionFn rec)))"
    by (intro keeps_bnd rec silent_completeAction silent_call)
  have P0: "silent r es (beginAction s)"
    using P by (simp add: beginAction_def silent_batch_update)
  from c have e: "bnd (rec (fn args)) (\<lambda>_. completeAction (reactionFn rec)) (beginAction s) = (res, s')"
    by (simp add: action_def)
  from keepsD [OF kb P0 e] show "silent r es s'" .
qed

lemma silent_computed:
  assumes rec: "\<And>q. keeps (silent r es) (rec q)"
  shows "keeps (silent r es) (computed n rec fn)"
proof (rule keepsI)
  fix s res s'
  assume P: "silent r es s" and c: "computed n rec fn s = (res, s')"
  let ?effect = "\<lambda>cache v. Put cache (Name ''value'') v (Return v)"
  have kb: "keeps (silent r es)
              (bnd (observable n (reactionFn rec) (Ref (next_obj s)) None)
                 (\<lambda>cache. bnd (reaction rec fn (?effect cache))
                                (\<lambda>reactionHandle. ret (cache, reactionHandle))))"
    by (intro keeps_bnd keeps_ret el_observable elementary_silent silent_publish
        silent_call silent_reaction rec)
  have e: "bnd (observable n (reactionFn rec) (Ref (next_obj s)) None)
                 (\<lambda>cache. bnd (reaction rec fn (?effect cache))
                                (\<lambda>reactionHandle. ret (cache, reactionHandle)))
             (new_plain False [(Name ''value'', Undefined)] [] s) = (res, s')"
    using c by (simp add: computed_def)
  have "silent r es (new_plain False [(Name ''value'', Undefined)] [] s)"
    using elementaryD(5) [OF elementary_silent P] .
  from keepsD [OF kb this e] show "silent r es s'" .
qed

lemma silent_dispose:
  assumes "silent r es s"
  shows "silent r es (dispose h s)"
proof (cases "REACTION_FOR_DISPOSAL h")
  case None
  with assms show ?thesis by (simp add: dispose_def)
next
  case (Some r')
  show ?thesis
  proof (cases "reactionSubscriptionSets s r'")
    case None
    with Some assms show ?thesis by (simp add: dispose_def store_dispose_def)
  next
    case (Some subs)
    have other: "trace (fold (delete_reaction r') xs s) = trace s
         \<and> currentlyTracking (fold (delete_reaction r') xs s) = currentlyTracking s
         \<and> next_reaction (fold (delete_reaction r') xs s) = next_reaction s" for xs
      by (induction xs arbitrary: s) (simp_all add: delete_reaction_def)
    have "Some r \<notin> set (rsets (fold (delete_reaction r') subs s) rs)" for rs
      using assms by (auto simp: rsets_fold_delete_reaction set_delete_def silent_def dead_def)
    then show ?thesis
      using assms Some \<open>REACTION_FOR_DISPOSAL h = Some r'\<close> other [of subs]
      by (simp add: dispose_def store_dispose_def Let_def silent_def dead_def tracked_def)
  qed
qed

text \<open>No program, whatever it does, calls a dead reaction or brings it back to life.\<close>

lemma silent_run: "keeps (silent r es) (run n p)"
proof (induction n arbitrary: p)
  case 0
  show ?case by (rule keepsI) simp
next
  case (Suc n)
  note IH = Suc.IH
  note el = elementary_silent [of r es]
  let ?call = "reactionFn (run n)"
  have call: "r' \<noteq> r \<Longrightarrow> keeps (silent r es) (?call r')" for r'
    by (rule silent_call [OF IH])
  have pub: "keeps (silent r es) (publish m ?call rs)" for m rs
    by (rule silent_publish [OF call])
  have wrap: "keeps (silent r es) (observable m ?call v q)" for m v q
    by (rule el_observable [OF el pub])
  show ?case
  proof (rule keepsI)
    fix s res s'
    assume B: "silent r es s" and c: "run (Suc n) p s = (res, s')"
    from c have st: "step n (run n) p s = (res, s')" by simp
    show "silent r es s'"
    proof (cases p)
      case (Return v)
      with st B show ?thesis by (simp add: step_def)
    next
      case (Throw v)
      with st B show ?thesis by (simp add: step_def)
    next
      case (NewObject kvs k)
      have e: "run n (k (Ref (next_obj s))) (new_plain False kvs [] s) = (res, s')"
        using st NewObject by (simp add: step_def)
      from keepsD [OF IH elementaryD(5) [OF el B] e] show ?thesis .
    next
      case (NewArray vs k)
      have e: "run n (k (Ref (next_obj s))) (new_plain True [] vs s) = (res, s')"
        using st NewArray by (simp add: step_def)
      from keepsD [OF IH elementaryD(5) [OF el B] e] show ?thesis .
    next
      case (Get ov pk k)
      show ?thesis
      proof (cases ov)
        case (Ref a)
        obtain v s1 where g: "js_get a pk s = (v, s1)" by (cases "js_get a pk s")
        have e: "run n (k v) s1 = (res, s')" using st Get Ref g by (simp add: step_def)
        from keepsD [OF IH el_js_get [OF el B g] e] show ?thesis .
      next
        case Undefined
        with st Get B show ?thesis by (simp add: step_def)
      next
        case Null
        with st Get B show ?thesis by (simp add: step_def)
      next
        case (Boolean b)
        with st Get have "run n (k Undefined) s = (res, s')" by (simp add: step_def)
        from keepsD [OF IH B this] show ?thesis .
      next
        case (Number i)
        with st Get have "run n (k Undefined) s = (res, s')" by (simp add: step_def)
        from keepsD [OF IH B this] show ?thesis .
      next
        case NaN
        with st Get have "run n (k Undefined) s = (res, s')" by (simp add: step_def)
        from keepsD [OF IH B this] show ?thesis .
      next
        case (Str x)
        with st Get have "run n (k Undefined) s = (res, s')" by (simp add: step_def)
        from keepsD [OF IH B this] show ?thesis .
      next
        case (Mutator t m)
        with st Get have "run n (k Undefined) s = (res, s')" by (simp add: step_def)
        from keepsD [OF IH B this] show ?thesis .
      qed
    next
      case (Put ov pk v k)
      show ?thesis
      proof (cases ov)
        case (Ref a)
        have kb: "keeps (silent r es) (bnd (js_put (observable n ?call) (publish n ?call) a pk v)
                    (\<lambda>_. run n k))"
          by (intro keeps_bnd el_js_put el wrap pub IH)
        have e: "bnd (js_put (observable n ?call) (publish n ?call) a pk v) (\<lambda>_. run n k) s
                   = (res, s')"
          using st Put Ref by (simp add: step_def)
        from keepsD [OF kb B e] show ?thesis .
      qed (use st Put B in \<open>simp_all add: step_def\<close>)
    next
      case (Apply f args k)
      have kb: "keeps (silent r es) (bnd (apply_fn (publish n ?call) f args) (\<lambda>v. run n (k v)))"
        by (intro keeps_bnd el_apply_fn el pub IH)
      have e: "bnd (apply_fn (publish n ?call) f args) (\<lambda>v. run n (k v)) s = (res, s')"
        using st Apply by (simp add: step_def)
      from keepsD [OF kb B e] show ?thesis .
    next
      case (Call q k)
      have kb: "keeps (silent r es) (bnd (run n q) (\<lambda>v. run n (k v)))"
        by (intro keeps_bnd IH)
      have e: "bnd (run n q) (\<lambda>v. run n (k v)) s = (res, s')"
        using st Call by (simp add: step_def)
      from keepsD [OF kb B e] show ?thesis .
    next
      case (Observable v k)
      have kb: "keeps (silent r es) (bnd (observable n ?call v None) (\<lambda>w. run n (k w)))"
        by (intro keeps_bnd wrap IH)
      have e: "bnd (observable n ?call v None) (\<lambda>w. run n (k w)) s = (res, s')"
        using st Observable by (simp add: step_def)
      from keepsD [OF kb B e] show ?thesis .
    next
      case (Reaction tf ef k)
      have kb: "keeps (silent r es) (bnd (reaction (run n) tf ef) (\<lambda>h. run n (k h)))"
        by (intro keeps_bnd silent_reaction IH)
      have e: "bnd (reaction (run n) tf ef) (\<lambda>h. run n (k h)) s = (res, s')"
        using st Reaction by (simp add: step_def)
      from keepsD [OF kb B e] show ?thesis .
    next
      case (Computed fn k)
      have kk: "keeps (silent r es) (case x of (cache, h) \<Rightarrow> run n (k cache h))" for x
        by (cases x) (simp add: IH)
      have kc: "keeps (silent r es) (computed n (run n) fn)"
        by (rule silent_computed [OF IH])
      have kb: "keeps (silent r es) (bnd (computed n (run n) fn) (\<lambda>(cache, h). run n (k cache h)))"
        by (intro keeps_bnd kc kk)
      have e: "bnd (computed n (run n) fn) (\<lambda>(cache, h). run n (k cache h)) s = (res, s')"
        using st Computed by (simp add: step_def)
      from keepsD [OF kb B e] show ?thesis .
    next
      case (CallAction fn args k)
      have kb: "keeps (silent r es) (bnd (action (run n) fn args) (\<lambda>_. run n k))"
        by (intro keeps_bnd silent_action IH)
      have e: "bnd (action (run n) fn args) (\<lambda>_. run n k) s = (res, s')"
        using st CallAction by (simp add: step_def)
      from keepsD [OF kb B e] show ?thesis .
    next
      case (Dispose h k)
      have e: "run n k (dispose h s) = (res, s')" using st Dispose by (simp add: step_def)
      from keepsD [OF IH silent_dispose [OF B] e] show ?thesis .
    qed
  qed
qed

text \<open>
  Once a reaction is dead, every run from there on leaves it dead and adds no event about
  it to the log: neither the reaction nor its effect function is called again.
\<close>

lemma dead_stays_dead:
  assumes "dead r s" and "run n p s = (res, s')"
  shows "dead r s' \<and> filter (about r) (trace s') = filter (about r) (trace s)"
  using keepsD [OF silent_run, of r "filter (about r) (trace s)" s n p res s'] assms
  by (simp add: silent_def)

text \<open>
  \<^verbatim>\<open>dispose\<close> makes a reaction dead when the reaction-sets it belongs to are all in
  its subscription record and it is not in the middle of its own tracked function.
\<close>

lemma dispose_makes_dead:
  assumes "reactionSubscriptionSets s r = Some subs"
    and "\<forall>rs. set_has (rsets s rs) r \<longrightarrow> rs \<in> set subs"
    and "tracked s \<noteq> Some r" and "r < next_reaction s"
  shows "dead r (dispose (Handle (Some r)) s)"
proof -
  have other: "currentlyTracking (fold (delete_reaction r) xs s) = currentlyTracking s
         \<and> next_reaction (fold (delete_reaction r) xs s) = next_reaction s" for xs
    by (induction xs arbitrary: s) (simp_all add: delete_reaction_def)
  have "Some r \<notin> set (rsets (fold (delete_reaction r) subs s) rs)" for rs
    using assms(2) by (auto simp: rsets_fold_delete_reaction set_delete_def set_has_def)
  then show ?thesis
    using assms other [of subs]
    by (simp add: dispose_def store_dispose_def Let_def dead_def tracked_def)
qed


text \<open>Disposed at the top level, the reaction is not called when its field changes.\<close>

lemma disposed_reaction_stays_silent:
  "trace (snd (run 30 c8_simple initial_state)) = [Invoked 0, Effect 0 (Number 0)]"
  unfolding c8_simple_def by code_simp

text \<open>
  C8 at the failing input. Reaction 0 reads \<open>b\<close>; reaction 1 reads \<open>a\<close> and its effect
  disposes reaction 0 once \<open>a\<close> is not below 1. An action sets both fields. When the action
  completes, \<^verbatim>\<open>publishAll\<close> has put both reactions in \<^verbatim>\<open>allReactions\<close>;
  reaction 1 runs and disposes reaction 0, and reaction 0 is called all the same
  (\<open>Effect 0 (Number 1)\<close>), which subscribes it again. The later write \<^verbatim>\<open>obs.b = 2\<close>
  calls its effect once more (\<open>Effect 0 (Number 2)\<close>).
\<close>

theorem disposed_reaction_runs_again:
  "fst (run 30 c8_dispose initial_state) = Returned Undefined
   \<and> trace (snd (run 30 c8_dispose initial_state))
       = [Invoked 0, Effect 0 (Number 0), Invoked 1, Effect 1 (Number 0),
          Invoked 1, Effect 1 (Number 1), Invoked 0, Effect 0 (Number 1),
          Invoked 0, Effect 0 (Number 2)]"
  unfolding c8_dispose_def by code_simp

end
